theory Spec2Isabelle
  imports Main "HOL-Library.Word" "HOL-Library.Multiset"
begin

section \<open>Go values used by the delegation core\<close>

text \<open>
  Go's \<open>int\<close> is modelled as a 64-bit word read in two's complement (\<open>sint\<close>); \<open>+\<close> wraps
  as the machine addition does. A \<open>[]string\<close> is a slice header (the address of a backing
  array and a length) into a store of backing arrays, so that writes through one slice
  are visible through every slice that shares the array. The store is a list of arrays;
  the address of an array is its position, and an allocation appends a new array.
\<close>

type_synonym go_int = "64 word"

type_synonym store = "string list list"

datatype strings = NilSlice | Slice nat nat

datatype panic = IndexOutOfRange | NilDereference

fun len :: "strings \<Rightarrow> nat" where
  "len NilSlice = 0"
| "len (Slice a n) = n"

fun elems :: "store \<Rightarrow> strings \<Rightarrow> string list" where
  "elems h NilSlice = []"
| "elems h (Slice a n) = take n (h ! a)"

text \<open>\<open>make([]string, n)\<close>: a fresh array of \<open>n\<close> empty strings.\<close>

definition make_strings :: "store \<Rightarrow> nat \<Rightarrow> store \<times> strings" where
  "make_strings h n = (h @ [replicate n ''''], Slice (length h) n)"

text \<open>\<open>copy(dst, src)\<close>: overwrites the first \<open>min(len(dst), len(src))\<close> cells of \<open>dst\<close>.\<close>

fun copy_strings :: "store \<Rightarrow> strings \<Rightarrow> strings \<Rightarrow> store" where
  "copy_strings h NilSlice src = h"
| "copy_strings h (Slice a n) src =
     (let k = min n (len src)
      in h[a := take k (elems h src) @ drop k (h ! a)])"

text \<open>\<open>s[i] = v\<close>: panics when \<open>i\<close> is not below \<open>len(s)\<close>.\<close>

fun store_index :: "store \<Rightarrow> strings \<Rightarrow> nat \<Rightarrow> string \<Rightarrow> panic + store" where
  "store_index h NilSlice i v = Inl IndexOutOfRange"
| "store_index h (Slice a n) i v =
     (if i < n then Inr (h[a := (h ! a)[i := v]]) else Inl IndexOutOfRange)"

section \<open>Execution context (pkg/core/context.go)\<close>

text \<open>
  A \<open>context.Context\<close> is an immutable chain of key/value nodes created by
  \<open>context.WithValue\<close>; \<open>ctx.Value(key)\<close> returns the value of the nearest node with that
  key. The keys are the four package-private keys of pkg/core.
\<close>

datatype contextKey = callChainKey | hopCountKey | traceIDKey | remainingTimeoutKey

datatype ctx_value = StringsVal strings | IntVal go_int | StringVal string | Int64Val "64 word"

datatype Context = Background | WithValue Context contextKey ctx_value

fun Value :: "Context \<Rightarrow> contextKey \<Rightarrow> ctx_value option" where
  "Value Background key = None"
| "Value (WithValue parent k v) key = (if k = key then Some v else Value parent key)"

text \<open>The type assertion \<open>.([]string)\<close> fails on a missing or differently typed value.\<close>

definition CallChain :: "Context \<Rightarrow> strings" where
  "CallChain ctx =
     (case Value ctx callChainKey of Some (StringsVal chain) \<Rightarrow> chain | _ \<Rightarrow> NilSlice)"

definition WithCallChain :: "store \<Rightarrow> Context \<Rightarrow> string \<Rightarrow> panic + (store \<times> Context)" where
  "WithCallChain h ctx agentID =
     (let chain = CallChain ctx;
          (h1, newChain) = make_strings h (len chain + 1);
          h2 = copy_strings h1 newChain chain
      in case store_index h2 newChain (len chain) agentID of
           Inl p \<Rightarrow> Inl p
         | Inr h3 \<Rightarrow> Inr (h3, WithValue ctx callChainKey (StringsVal newChain)))"

text \<open>The \<open>range\<close> loop of \<open>InCallChain\<close>, returning at the first match.\<close>

fun range_contains :: "string list \<Rightarrow> string \<Rightarrow> bool" where
  "range_contains [] agentID = False"
| "range_contains (x # xs) agentID = (if x = agentID then True else range_contains xs agentID)"

definition InCallChain :: "store \<Rightarrow> Context \<Rightarrow> string \<Rightarrow> bool" where
  "InCallChain h ctx agentID = range_contains (elems h (CallChain ctx)) agentID"

definition HopCount :: "Context \<Rightarrow> go_int" where
  "HopCount ctx = (case Value ctx hopCountKey of Some (IntVal c) \<Rightarrow> c | _ \<Rightarrow> 0)"

definition WithHopCount :: "Context \<Rightarrow> Context" where
  "WithHopCount ctx = WithValue ctx hopCountKey (IntVal (HopCount ctx + 1))"

section \<open>Cycle and hop guard (pkg/mesh/cycle.go)\<close>

definition DefaultMaxHops :: go_int where
  "DefaultMaxHops = 10"

datatype error = ErrCycleDetected | ErrMaxHopsExceeded | FindProvidersFailed string error

record CycleDetector =
  maxHops :: go_int

definition NewCycleDetector :: "go_int \<Rightarrow> CycleDetector" where
  "NewCycleDetector m = \<lparr>maxHops = (if sint m \<le> 0 then DefaultMaxHops else m)\<rparr>"

text \<open>\<open>None\<close> is Go's \<open>nil\<close> error.\<close>

definition Check :: "CycleDetector \<Rightarrow> store \<Rightarrow> Context \<Rightarrow> string \<Rightarrow> error option" where
  "Check cd h ctx agentID =
     (if InCallChain h ctx agentID then Some ErrCycleDetected
      else if sint (maxHops cd) \<le> sint (HopCount ctx) then Some ErrMaxHopsExceeded
      else None)"

definition PrepareContext ::
  "CycleDetector \<Rightarrow> store \<Rightarrow> Context \<Rightarrow> string \<Rightarrow> panic + (store \<times> Context)" where
  "PrepareContext cd h ctx agentID =
     (case WithCallChain h ctx agentID of
        Inl p \<Rightarrow> Inl p
      | Inr (h1, ctx1) \<Rightarrow> Inr (h1, WithHopCount ctx1))"

definition MaxHops :: "CycleDetector \<Rightarrow> go_int" where
  "MaxHops cd = maxHops cd"

text \<open>The call chain of a context as the list of agent IDs stored in its backing array.\<close>

definition chain_of :: "store \<Rightarrow> Context \<Rightarrow> string list" where
  "chain_of h ctx = elems h (CallChain ctx)"

text \<open>A slice header is valid in a store when its array exists and is long enough.\<close>

fun valid_slice :: "store \<Rightarrow> strings \<Rightarrow> bool" where
  "valid_slice h NilSlice = True"
| "valid_slice h (Slice a n) = (a < length h \<and> n \<le> length (h ! a))"

text \<open>
  The contexts a delegation path can hold: start from the empty context and repeat
  "Check succeeds for a candidate, then PrepareContext for that candidate".
\<close>

inductive reachable :: "CycleDetector \<Rightarrow> store \<Rightarrow> Context \<Rightarrow> bool" for cd where
  start: "reachable cd h Background"
| hop: "reachable cd h ctx \<Longrightarrow> Check cd h ctx agentID = None \<Longrightarrow>
        PrepareContext cd h ctx agentID = Inr (h', ctx') \<Longrightarrow> reachable cd h' ctx'"

text \<open>The three parts of the guard's invariant, for one context read in one store.\<close>

definition guard_inv :: "CycleDetector \<Rightarrow> store \<Rightarrow> Context \<Rightarrow> bool" where
  "guard_inv cd h ctx \<longleftrightarrow>
     distinct (chain_of h ctx) \<and>
     sint (HopCount ctx) = int (length (chain_of h ctx)) \<and>
     sint (HopCount ctx) \<le> sint (MaxHops cd)"

section \<open>Selection policies (pkg/mesh/balancer.go)\<close>

text \<open>
  \<open>Select\<close> returns \<open>None\<close> for Go's \<open>nil\<close> agent. The round-robin counter is a
  \<open>uint64\<close>; \<open>atomic.AddUint64\<close> returns the incremented value, so \<open>idx\<close> is the value
  before the call, and both operations wrap at \<open>2 ^ 64\<close>. \<open>uint64(len(agents))\<close> is the
  length itself, since a slice length is a non-negative \<open>int\<close>. The updated balancer is
  returned with the selected agent.
\<close>

record RoundRobinBalancer =
  counter :: "64 word"

definition NewRoundRobinBalancer :: RoundRobinBalancer where
  "NewRoundRobinBalancer = \<lparr>counter = 0\<rparr>"

definition rr_Select :: "RoundRobinBalancer \<Rightarrow> 'a list \<Rightarrow> 'a option \<times> RoundRobinBalancer" where
  "rr_Select b agents =
     (if length agents = 0 then (None, b)
      else let new = counter b + 1;
               idx = new - 1
           in (Some (agents ! (unat idx mod length agents)), b\<lparr>counter := new\<rparr>))"

text \<open>
  The injected \<open>randFunc\<close> may be \<open>nil\<close> (cmd/lattice/serve.go passes \<open>nil\<close>); calling
  it then panics, as does an index outside the slice.
\<close>

record RandomBalancer =
  randFunc :: "(int \<Rightarrow> int) option"

definition NewRandomBalancer :: "(int \<Rightarrow> int) option \<Rightarrow> RandomBalancer" where
  "NewRandomBalancer f = \<lparr>randFunc = f\<rparr>"

definition random_Select :: "RandomBalancer \<Rightarrow> 'a list \<Rightarrow> panic + 'a option" where
  "random_Select b agents =
     (if length agents = 0 then Inr None
      else case randFunc b of
             None \<Rightarrow> Inl NilDereference
           | Some f \<Rightarrow>
               (let i = f (int (length agents))
                in if 0 \<le> i \<and> i < int (length agents) then Inr (Some (agents ! nat i))
                   else Inl IndexOutOfRange))"

definition first_Select :: "'a list \<Rightarrow> 'a option" where
  "first_Select agents = (if length agents = 0 then None else Some (agents ! 0))"

text \<open>The \<open>Balancer\<close> interface with its three implementations.\<close>

datatype Balancer = RoundRobin RoundRobinBalancer | Random RandomBalancer | First

fun Select :: "Balancer \<Rightarrow> 'a list \<Rightarrow> (panic + 'a option) \<times> Balancer" where
  "Select (RoundRobin b) agents = (case rr_Select b agents of (r, b') \<Rightarrow> (Inr r, RoundRobin b'))"
| "Select (Random b) agents = (random_Select b agents, Random b)"
| "Select First agents = (Inr (first_Select agents), First)"

text \<open>\<open>n\<close> consecutive round-robin calls on the same candidate list, results in call order.\<close>

fun select_times :: "nat \<Rightarrow> RoundRobinBalancer \<Rightarrow> 'a list \<Rightarrow> 'a option list \<times> RoundRobinBalancer" where
  "select_times 0 b agents = ([], b)"
| "select_times (Suc n) b agents =
     (case rr_Select b agents of (r, b') \<Rightarrow>
        (case select_times n b' agents of (rs, b'') \<Rightarrow> (r # rs, b'')))"

section \<open>Capability registry (pkg/registry/local.go)\<close>

type_synonym Capability = string

record Agent =
  ID :: string
  Provides :: "Capability list"
  Needs :: "Capability list"

record Local =
  agents_map :: "string \<rightharpoonup> Agent"

definition NewLocal :: Local where
  "NewLocal = \<lparr>agents_map = Map.empty\<rparr>"

definition Register :: "Local \<Rightarrow> Agent \<Rightarrow> Local" where
  "Register r agent = r\<lparr>agents_map := (agents_map r)(ID agent \<mapsto> agent)\<rparr>"

definition Deregister :: "Local \<Rightarrow> string \<Rightarrow> Local" where
  "Deregister r agentID = r\<lparr>agents_map := (agents_map r)(agentID := None)\<rparr>"

text \<open>
  A \<open>range\<close> over a Go map visits every entry once, in an order the language leaves
  unspecified and the runtime varies from one loop to the next. The order of one loop is
  a parameter of the model: a list of the map's keys without repetition.
\<close>

definition range_order :: "Local \<Rightarrow> string list \<Rightarrow> bool" where
  "range_order r ord \<longleftrightarrow> distinct ord \<and> set ord = dom (agents_map r)"

text \<open>The inner loop over \<open>agent.Provides()\<close>, leaving at the first equal capability.\<close>

fun provides_cap :: "Capability list \<Rightarrow> Capability \<Rightarrow> bool" where
  "provides_cap [] cap = False"
| "provides_cap (provided # rest) cap = (if provided = cap then True else provides_cap rest cap)"

text \<open>
  The outer loop of \<open>FindByCapability\<close> over the map entries, in the order \<open>ks\<close> of
  their keys. An iteration order names keys of the map only; any other key is passed over.
\<close>

fun scan_agents :: "(string \<rightharpoonup> Agent) \<Rightarrow> string list \<Rightarrow> Capability \<Rightarrow> Agent list" where
  "scan_agents m [] cap = []"
| "scan_agents m (k # ks) cap =
     (case m k of
        None \<Rightarrow> scan_agents m ks cap
      | Some agent \<Rightarrow>
          (if provides_cap (Provides agent) cap then agent # scan_agents m ks cap
           else scan_agents m ks cap))"

definition FindByCapability :: "Local \<Rightarrow> string list \<Rightarrow> Capability \<Rightarrow> error + Agent list" where
  "FindByCapability r ord cap = Inr (scan_agents (agents_map r) ord cap)"

text \<open>The registered agents that declare a capability, as a set.\<close>

definition providers_of :: "Local \<Rightarrow> Capability \<Rightarrow> Agent set" where
  "providers_of r cap = {a \<in> ran (agents_map r). cap \<in> set (Provides a)}"

section \<open>Delegation tool factory (pkg/mesh/injector.go)\<close>

text \<open>
  The balancer and the guard are held by reference and only passed on to the tools; the
  balancer reference is kept abstract as \<open>'b\<close>.
\<close>

record 'b Injector =
  registry :: Local
  balancer :: 'b
  cycleDetector :: CycleDetector

record 'b AgentTool =
  capability :: Capability
  providers :: "Agent list"
  tool_balancer :: 'b
  tool_cycleDetector :: CycleDetector

definition Name :: "'b AgentTool \<Rightarrow> string" where
  "Name t = ''delegate_to_'' @ capability t"

text \<open>
  The loop of \<open>InjectTools\<close> over \<open>agent.Needs()\<close>. Each need scans the registry once;
  \<open>sched i\<close> is the map iteration order of the \<open>i\<close>-th scan.
\<close>

fun inject_loop ::
  "'b Injector \<Rightarrow> (nat \<Rightarrow> string list) \<Rightarrow> nat \<Rightarrow> Capability list \<Rightarrow> error + 'b AgentTool list" where
  "inject_loop injector sched i [] = Inr []"
| "inject_loop injector sched i (need # rest) =
     (case FindByCapability (registry injector) (sched i) need of
        Inl err \<Rightarrow> Inl (FindProvidersFailed need err)
      | Inr provs \<Rightarrow>
          (if length provs = 0 then inject_loop injector sched (Suc i) rest
           else case inject_loop injector sched (Suc i) rest of
                  Inl err \<Rightarrow> Inl err
                | Inr tools \<Rightarrow>
                    Inr (\<lparr>capability = need, providers = provs,
                          tool_balancer = balancer injector,
                          tool_cycleDetector = cycleDetector injector\<rparr> # tools)))"

definition InjectTools ::
  "'b Injector \<Rightarrow> (nat \<Rightarrow> string list) \<Rightarrow> Agent \<Rightarrow> error + 'b AgentTool list" where
  "InjectTools injector sched agent = inject_loop injector sched 0 (Needs agent)"

section \<open>Properties of the guard\<close>

lemma range_contains_iff: "range_contains xs x \<longleftrightarrow> x \<in> set xs"
  by (induction xs) auto

lemma InCallChain_iff: "InCallChain h ctx x \<longleftrightarrow> x \<in> set (chain_of h ctx)"
  by (simp add: InCallChain_def chain_of_def range_contains_iff)

lemma elems_append: "valid_slice h s \<Longrightarrow> elems (h @ hs) s = elems h s"
  by (cases s) (auto simp: nth_append)

lemma length_elems: "valid_slice h s \<Longrightarrow> length (elems h s) = len s"
  by (cases s) auto

lemma valid_slice_append: "valid_slice h s \<Longrightarrow> valid_slice (h @ hs) s"
  by (cases s) (auto simp: nth_append)

lemma drop_zero_cell: "drop n (x # replicate n x) = [x]"
  by (induction n) auto

text \<open>
  On a valid chain slice \<open>WithCallChain\<close> never panics: it appends one array holding the
  old chain followed by the new ID, and leaves every existing array as it was.
\<close>

lemma WithCallChain_eq:
  assumes "valid_slice h (CallChain ctx)"
  shows "WithCallChain h ctx a =
    Inr (h @ [chain_of h ctx @ [a]],
         WithValue ctx callChainKey (StringsVal (Slice (length h) (length (chain_of h ctx) + 1))))"
  using assms
  by (simp add: WithCallChain_def make_strings_def chain_of_def Let_def elems_append length_elems
      nth_append list_update_append drop_zero_cell)

lemma CallChain_WithHopCount [simp]: "CallChain (WithHopCount ctx) = CallChain ctx"
  by (simp add: CallChain_def WithHopCount_def)

lemma HopCount_WithHopCount [simp]: "HopCount (WithHopCount ctx) = HopCount ctx + 1"
  by (simp add: HopCount_def WithHopCount_def)

lemma HopCount_chain_node [simp]: "HopCount (WithValue ctx callChainKey v) = HopCount ctx"
  by (simp add: HopCount_def)

lemma CallChain_chain_node [simp]: "CallChain (WithValue ctx callChainKey (StringsVal s)) = s"
  by (simp add: CallChain_def)

lemma HopCount_Background [simp]: "HopCount Background = 0"
  by (simp add: HopCount_def)

lemma CallChain_Background [simp]: "CallChain Background = NilSlice"
  by (simp add: CallChain_def)

lemma PrepareContext_eq:
  assumes "valid_slice h (CallChain ctx)"
  shows "PrepareContext cd h ctx a =
    Inr (h @ [chain_of h ctx @ [a]],
         WithHopCount (WithValue ctx callChainKey
           (StringsVal (Slice (length h) (length (chain_of h ctx) + 1)))))"
  by (simp add: PrepareContext_def WithCallChain_eq [OF assms])

lemma chain_of_PrepareContext:
  assumes "valid_slice h (CallChain ctx)" "PrepareContext cd h ctx a = Inr (h', ctx')"
  shows "chain_of h' ctx' = chain_of h ctx @ [a]" "valid_slice h' (CallChain ctx')"
    "HopCount ctx' = HopCount ctx + 1" "h' = h @ [chain_of h ctx @ [a]]"
  using assms(2) unfolding PrepareContext_eq [OF assms(1)]
  by (auto simp: chain_of_def)

lemma chain_of_append: "valid_slice h (CallChain ctx) \<Longrightarrow> chain_of (h @ hs) ctx = chain_of h ctx"
  by (simp add: chain_of_def elems_append)

text \<open>Below the largest \<open>int\<close> the increment does not wrap.\<close>

lemma sint_succ:
  fixes x y :: "64 word"
  assumes "sint x < sint y"
  shows "sint (x + 1) = sint x + 1"
proof -
  have "sint y < 2 ^ 63" using sint_lt [of y] by simp
  moreover have "- (2 ^ 63) \<le> sint x" using sint_ge [of x] by simp
  ultimately have "signed_take_bit 63 (sint x + 1) = sint x + 1"
    using assms by (intro signed_take_bit_int_eq_self) auto
  then show ?thesis by (simp add: sint_word_ariths)
qed

lemma NewCycleDetector_pos: "0 < sint (maxHops (NewCycleDetector m))"
  by (simp add: NewCycleDetector_def DefaultMaxHops_def)

lemma reachable_valid_inv:
  assumes "reachable cd h ctx" "0 \<le> sint (maxHops cd)"
  shows "valid_slice h (CallChain ctx) \<and> guard_inv cd h ctx"
  using assms
proof (induction rule: reachable.induct)
  case (start h)
  then show ?case
    by (simp add: guard_inv_def chain_of_def CallChain_def HopCount_def MaxHops_def)
next
  case (hop h ctx agentID h' ctx')
  then have v: "valid_slice h (CallChain ctx)" and g: "guard_inv cd h ctx" by simp_all
  note pc = chain_of_PrepareContext [OF v hop.hyps(3)]
  from hop.hyps(2) have fresh: "agentID \<notin> set (chain_of h ctx)"
    and budget: "sint (HopCount ctx) < sint (maxHops cd)"
    by (auto simp: Check_def InCallChain_iff split: if_splits)
  have "sint (HopCount ctx + 1) = sint (HopCount ctx) + 1"
    using budget by (rule sint_succ)
  with g fresh budget pc(1-3) show ?case by (simp add: guard_inv_def MaxHops_def)
qed

text \<open>
  C1. Every context reached from the empty context by steps "Check succeeds for an ID,
  then PrepareContext with that ID", under a guard built by \<open>NewCycleDetector\<close>, has a call
  chain without repeated IDs, a hop count equal to the length of the chain, and a hop
  count of at most the configured maximum.
\<close>

theorem reachable_guard_invariant:
  assumes "reachable (NewCycleDetector m) h ctx"
  shows "distinct (chain_of h ctx) \<and>
         sint (HopCount ctx) = int (length (chain_of h ctx)) \<and>
         sint (HopCount ctx) \<le> sint (MaxHops (NewCycleDetector m))"
proof -
  have "0 \<le> sint (maxHops (NewCycleDetector m))"
    using NewCycleDetector_pos [of m] by simp
  from reachable_valid_inv [OF assms this] show ?thesis
    by (simp add: guard_inv_def)
qed

text \<open>
  The invariant at the context reached with a maximum of 3 by delegating to \<open>A\<close> and
  then to \<open>B\<close>: the chain is \<open>[A, B]\<close> and the hop count is 2.
\<close>

theorem reachable_guard_invariant_witness:
  "reachable (NewCycleDetector 3) [[''A''], [''A'', ''B'']]
     (WithHopCount (WithValue (WithHopCount (WithValue Background callChainKey
        (StringsVal (Slice 0 1)))) callChainKey (StringsVal (Slice 1 2)))) \<and>
   chain_of [[''A''], [''A'', ''B'']]
     (WithHopCount (WithValue (WithHopCount (WithValue Background callChainKey
        (StringsVal (Slice 0 1)))) callChainKey (StringsVal (Slice 1 2)))) = [''A'', ''B''] \<and>
   distinct [''A'', ''B''] \<and>
   sint (HopCount
     (WithHopCount (WithValue (WithHopCount (WithValue Background callChainKey
        (StringsVal (Slice 0 1)))) callChainKey (StringsVal (Slice 1 2))))) = 2 \<and>
   sint (MaxHops (NewCycleDetector 3)) = 3"
proof -
  let ?cd = "NewCycleDetector 3"
  let ?c1 = "WithHopCount (WithValue Background callChainKey (StringsVal (Slice 0 1)))"
  let ?c2 = "WithHopCount (WithValue ?c1 callChainKey (StringsVal (Slice 1 2)))"
  have r0: "reachable ?cd [] Background" by (rule reachable.start)
  have k0: "Check ?cd [] Background ''A'' = None"
    by (simp add: Check_def InCallChain_def NewCycleDetector_def)
  have p0: "PrepareContext ?cd [] Background ''A'' = Inr ([[''A'']], ?c1)"
    by (simp add: PrepareContext_def WithCallChain_def make_strings_def)
  have r1: "reachable ?cd [[''A'']] ?c1" by (rule reachable.hop [OF r0 k0 p0])
  have k1: "Check ?cd [[''A'']] ?c1 ''B'' = None"
    by (simp add: Check_def InCallChain_def NewCycleDetector_def)
  have p1: "PrepareContext ?cd [[''A'']] ?c1 ''B'' = Inr ([[''A''], [''A'', ''B'']], ?c2)"
    by (simp add: PrepareContext_def WithCallChain_def make_strings_def numeral_2_eq_2)
  have r2: "reachable ?cd [[''A''], [''A'', ''B'']] ?c2" by (rule reachable.hop [OF r1 k1 p1])
  have c: "chain_of [[''A''], [''A'', ''B'']] ?c2 = [''A'', ''B'']"
    by (simp add: chain_of_def)
  from reachable_guard_invariant [OF r2] r2 c show ?thesis
    by (simp add: MaxHops_def NewCycleDetector_def)
qed

text \<open>
  C2. When the candidate ID occurs anywhere in the context's call chain, \<open>Check\<close>
  returns the cycle error, whatever the hop count and the configured maximum are.
\<close>

theorem Check_cycle_error:
  assumes "X \<in> set (chain_of h ctx)"
  shows "Check cd h ctx X = Some ErrCycleDetected"
  using assms by (simp add: Check_def InCallChain_iff)

text \<open>
  Direct re-entrancy (chain \<open>[A]\<close>, candidate \<open>A\<close>) and indirect re-entrancy (chain
  \<open>[A, B, C]\<close>, candidate \<open>A\<close>, which is not the last entry).
\<close>

theorem Check_cycle_error_witness:
  "chain_of [[''A'']] (WithValue Background callChainKey (StringsVal (Slice 0 1))) = [''A''] \<and>
   Check (NewCycleDetector 10) [[''A'']]
     (WithValue Background callChainKey (StringsVal (Slice 0 1))) ''A'' = Some ErrCycleDetected \<and>
   chain_of [[''A'', ''B'', ''C'']] (WithValue Background callChainKey (StringsVal (Slice 0 3)))
     = [''A'', ''B'', ''C''] \<and>
   Check (NewCycleDetector 10) [[''A'', ''B'', ''C'']]
     (WithValue Background callChainKey (StringsVal (Slice 0 3))) ''A'' = Some ErrCycleDetected"
proof -
  let ?c1 = "WithValue Background callChainKey (StringsVal (Slice 0 1))"
  let ?c3 = "WithValue Background callChainKey (StringsVal (Slice 0 3))"
  have a: "chain_of [[''A'']] ?c1 = [''A'']"
    by (simp add: chain_of_def)
  have b: "chain_of [[''A'', ''B'', ''C'']] ?c3 = [''A'', ''B'', ''C'']"
    by (simp add: chain_of_def)
  have "''A'' \<in> set (chain_of [[''A'']] ?c1)"
    unfolding a by simp
  note d = Check_cycle_error [OF this, of "NewCycleDetector 10"]
  have "''A'' \<in> set (chain_of [[''A'', ''B'', ''C'']] ?c3)"
    unfolding b by simp
  note i = Check_cycle_error [OF this, of "NewCycleDetector 10"]
  from a b d i show ?thesis by simp
qed

text \<open>
  C3, as stated, fails: the cycle test comes first, so for a candidate that is in the
  chain \<open>Check\<close> returns the cycle error even when the hop budget is used up. With a
  maximum of 1, after delegating to \<open>A\<close> the hop count is 1, and \<open>Check\<close> for \<open>A\<close>
  is the cycle error, not the hop-budget error.
\<close>

theorem Check_hop_budget_counterexample:
  "PrepareContext (NewCycleDetector 1) [] Background ''A'' =
     Inr ([[''A'']], WithHopCount (WithValue Background callChainKey (StringsVal (Slice 0 1)))) \<and>
   sint (MaxHops (NewCycleDetector 1)) \<le>
     sint (HopCount (WithHopCount (WithValue Background callChainKey (StringsVal (Slice 0 1))))) \<and>
   Check (NewCycleDetector 1) [[''A'']]
     (WithHopCount (WithValue Background callChainKey (StringsVal (Slice 0 1)))) ''A''
     = Some ErrCycleDetected \<and>
   Check (NewCycleDetector 1) [[''A'']]
     (WithHopCount (WithValue Background callChainKey (StringsVal (Slice 0 1)))) ''A''
     \<noteq> Some ErrMaxHopsExceeded"
  by (simp add: PrepareContext_def WithCallChain_def make_strings_def Check_def InCallChain_def
      MaxHops_def NewCycleDetector_def)

text \<open>
  C3, amended. When the hop count has reached the configured maximum, \<open>Check\<close> fails for
  every candidate: with the hop-budget error for every candidate that is not in the call
  chain (also one never seen before), and with the cycle error for a candidate that is.
\<close>

theorem Check_hop_budget_error:
  assumes "sint (MaxHops cd) \<le> sint (HopCount ctx)"
  shows "Check cd h ctx anyID =
    (if anyID \<in> set (chain_of h ctx) then Some ErrCycleDetected else Some ErrMaxHopsExceeded)"
  using assms by (simp add: Check_def InCallChain_iff MaxHops_def)

text \<open>
  The scenario of the specification: maximum 3, chain \<open>[A, B, C]\<close> with hop count 3;
  the unvisited \<open>D\<close> gets the hop-budget error.
\<close>

theorem Check_hop_budget_error_witness:
  "sint (MaxHops (NewCycleDetector 3)) \<le>
     sint (HopCount (WithHopCount (WithHopCount (WithHopCount
       (WithValue Background callChainKey (StringsVal (Slice 0 3))))))) \<and>
   chain_of [[''A'', ''B'', ''C'']] (WithHopCount (WithHopCount (WithHopCount
       (WithValue Background callChainKey (StringsVal (Slice 0 3)))))) = [''A'', ''B'', ''C''] \<and>
   Check (NewCycleDetector 3) [[''A'', ''B'', ''C'']] (WithHopCount (WithHopCount (WithHopCount
       (WithValue Background callChainKey (StringsVal (Slice 0 3)))))) ''D''
     = Some ErrMaxHopsExceeded"
proof -
  let ?c = "WithHopCount (WithHopCount (WithHopCount
       (WithValue Background callChainKey (StringsVal (Slice 0 3)))))"
  have b: "sint (MaxHops (NewCycleDetector 3)) \<le> sint (HopCount ?c)"
    by (simp add: MaxHops_def NewCycleDetector_def)
  have c: "chain_of [[''A'', ''B'', ''C'']] ?c = [''A'', ''B'', ''C'']"
    by (simp add: chain_of_def)
  from Check_hop_budget_error [OF b, of "[[''A'', ''B'', ''C'']]" "''D''"] b c
  show ?thesis by simp
qed

text \<open>
  C9. \<open>NewCycleDetector\<close> replaces a maximum of zero or less by the default, which is 10,
  and keeps a positive maximum as given. It always returns a guard.
\<close>

theorem NewCycleDetector_clamp:
  "(sint m \<le> 0 \<longrightarrow> MaxHops (NewCycleDetector m) = 10) \<and>
   (0 < sint m \<longrightarrow> MaxHops (NewCycleDetector m) = m)"
  by (simp add: NewCycleDetector_def MaxHops_def DefaultMaxHops_def)

text \<open>The values of the repository's tests (0 and -5 give the default) and a maximum of 3.\<close>

theorem NewCycleDetector_clamp_witness:
  "sint (0 :: go_int) \<le> 0 \<and> MaxHops (NewCycleDetector 0) = 10 \<and>
   sint (- 5 :: go_int) \<le> 0 \<and> MaxHops (NewCycleDetector (- 5)) = 10 \<and>
   0 < sint (3 :: go_int) \<and> MaxHops (NewCycleDetector 3) = 3"
  using NewCycleDetector_clamp [of 0] NewCycleDetector_clamp [of "- 5"]
    NewCycleDetector_clamp [of 3]
  by simp

text \<open>
  C4. \<open>PrepareContext\<close> does not write to anything its input context refers to. From a
  context \<open>c\<close> whose chain slice is valid in the store, \<open>PrepareContext(c, A)\<close> and then
  \<open>PrepareContext(c, B)\<close> both return (no panic); each result has the chain of \<open>c\<close>
  followed by its own ID and the hop count of \<open>c\<close> plus one (Go's \<open>int\<close> addition,
  which is the integer successor below the largest \<open>int\<close>); the chain read from \<open>c\<close>
  is the same before, between and after the calls; the second call leaves the chain of
  the first result as it was; and every array that was in the store before is unchanged.
  The hop count of \<open>c\<close> is a field of the immutable context node, so it cannot change.
\<close>

theorem PrepareContext_frame:
  assumes "valid_slice h (CallChain c)"
  shows "\<exists>h1 cA h2 cB.
     PrepareContext cd h c A = Inr (h1, cA) \<and>
     PrepareContext cd h1 c B = Inr (h2, cB) \<and>
     chain_of h1 cA = chain_of h c @ [A] \<and> HopCount cA = HopCount c + 1 \<and>
     chain_of h2 cB = chain_of h c @ [B] \<and> HopCount cB = HopCount c + 1 \<and>
     (sint (HopCount c) < 2 ^ 63 - 1 \<longrightarrow> sint (HopCount cA) = sint (HopCount c) + 1 \<and>
        sint (HopCount cB) = sint (HopCount c) + 1) \<and>
     chain_of h1 c = chain_of h c \<and> chain_of h2 c = chain_of h c \<and>
     chain_of h2 cA = chain_of h c @ [A] \<and>
     take (length h) h2 = h \<and>
     valid_slice h2 (CallChain c) \<and> valid_slice h2 (CallChain cA) \<and>
     valid_slice h2 (CallChain cB)"
proof -
  obtain h1 cA where pa: "PrepareContext cd h c A = Inr (h1, cA)"
    using PrepareContext_eq [OF assms] by blast
  note a = chain_of_PrepareContext [OF assms pa]
  have v1: "valid_slice h1 (CallChain c)"
    unfolding a(4) using assms by (rule valid_slice_append)
  have c1: "chain_of h1 c = chain_of h c"
    unfolding a(4) using assms by (rule chain_of_append)
  obtain h2 cB where pb: "PrepareContext cd h1 c B = Inr (h2, cB)"
    using PrepareContext_eq [OF v1] by blast
  note b = chain_of_PrepareContext [OF v1 pb]
  have c2: "chain_of h2 c = chain_of h c"
    unfolding b(4) using v1 c1 by (simp add: chain_of_append)
  have cA2: "chain_of h2 cA = chain_of h c @ [A]"
    unfolding b(4) using a(1,2) by (simp add: chain_of_append)
  have fr: "take (length h) h2 = h"
    unfolding b(4) a(4) by simp
  have v2: "valid_slice h2 (CallChain c)" "valid_slice h2 (CallChain cA)"
    unfolding b(4) using v1 a(2) by (simp_all add: valid_slice_append)
  have s: "sint (HopCount c) < 2 ^ 63 - 1 \<longrightarrow> sint (HopCount c + 1) = sint (HopCount c) + 1"
  proof
    assume "sint (HopCount c) < 2 ^ 63 - 1"
    then have "sint (HopCount c) < sint (9223372036854775807 :: 64 word)" by simp
    then show "sint (HopCount c + 1) = sint (HopCount c) + 1" by (rule sint_succ)
  qed
  from pa pb a(1,3) b(1,2,3) c1 c2 cA2 fr v2 s show ?thesis
    by (intro exI [of _ h1] exI [of _ cA] exI [of _ h2] exI [of _ cB]) simp
qed

text \<open>
  Two sibling delegations from the context with chain \<open>[R]\<close> and hop count 1: the store
  afterwards holds \<open>[R]\<close>, \<open>[R, A]\<close> and \<open>[R, B]\<close> in three separate arrays.
\<close>

theorem PrepareContext_frame_witness:
  "valid_slice [[''R'']]
     (CallChain (WithHopCount (WithValue Background callChainKey (StringsVal (Slice 0 1))))) \<and>
   PrepareContext (NewCycleDetector 10) [[''R'']]
     (WithHopCount (WithValue Background callChainKey (StringsVal (Slice 0 1)))) ''A'' =
     Inr ([[''R''], [''R'', ''A'']],
       WithHopCount (WithValue
         (WithHopCount (WithValue Background callChainKey (StringsVal (Slice 0 1))))
         callChainKey (StringsVal (Slice 1 2)))) \<and>
   PrepareContext (NewCycleDetector 10) [[''R''], [''R'', ''A'']]
     (WithHopCount (WithValue Background callChainKey (StringsVal (Slice 0 1)))) ''B'' =
     Inr ([[''R''], [''R'', ''A''], [''R'', ''B'']],
       WithHopCount (WithValue
         (WithHopCount (WithValue Background callChainKey (StringsVal (Slice 0 1))))
         callChainKey (StringsVal (Slice 2 2)))) \<and>
   chain_of [[''R''], [''R'', ''A''], [''R'', ''B'']]
     (WithHopCount (WithValue Background callChainKey (StringsVal (Slice 0 1)))) = [''R'']"
proof -
  let ?c = "WithHopCount (WithValue Background callChainKey (StringsVal (Slice 0 1)))"
  have v: "valid_slice [[''R'']] (CallChain ?c)" by simp
  have c: "chain_of [[''R'']] ?c = [''R'']" by (simp add: chain_of_def)
  from PrepareContext_frame [OF v, of "NewCycleDetector 10" "''A''" "''B''"]
  obtain h1 cA h2 cB where
    pa: "PrepareContext (NewCycleDetector 10) [[''R'']] ?c ''A'' = Inr (h1, cA)" and
    pb: "PrepareContext (NewCycleDetector 10) h1 ?c ''B'' = Inr (h2, cB)" and
    u: "chain_of h2 ?c = chain_of [[''R'']] ?c"
    by blast
  have ea: "PrepareContext (NewCycleDetector 10) [[''R'']] ?c ''A'' =
     Inr ([[''R''], [''R'', ''A'']],
       WithHopCount (WithValue ?c callChainKey (StringsVal (Slice 1 2))))"
    by (simp add: PrepareContext_def WithCallChain_def make_strings_def numeral_2_eq_2)
  have eb: "PrepareContext (NewCycleDetector 10) [[''R''], [''R'', ''A'']] ?c ''B'' =
     Inr ([[''R''], [''R'', ''A''], [''R'', ''B'']],
       WithHopCount (WithValue ?c callChainKey (StringsVal (Slice 2 2))))"
    by (simp add: PrepareContext_def WithCallChain_def make_strings_def numeral_2_eq_2)
  from pa ea have h1: "h1 = [[''R''], [''R'', ''A'']]" by simp
  from pb eb h1 have h2: "h2 = [[''R''], [''R'', ''A''], [''R'', ''B'']]" by simp
  from u c h2 v ea eb show ?thesis by simp
qed

section \<open>Properties of the selection policies\<close>

lemma rr_Select_nonempty:
  assumes "agents \<noteq> []"
  shows "rr_Select b agents =
    (Some (agents ! (unat (counter b) mod length agents)), b\<lparr>counter := counter b + 1\<rparr>)"
  using assms by (simp add: rr_Select_def Let_def)

text \<open>
  The \<open>k\<close>-th of \<open>n\<close> consecutive calls indexes with the starting counter plus \<open>k\<close>,
  in 64-bit arithmetic.
\<close>

lemma select_times_eq:
  assumes "agents \<noteq> []"
  shows "select_times n b agents =
    (map (\<lambda>k. Some (agents ! (unat (counter b + of_nat k) mod length agents))) [0..<n],
     b\<lparr>counter := counter b + of_nat n\<rparr>)"
proof (induction n arbitrary: b)
  case 0
  show ?case by simp
next
  case (Suc n)
  have "select_times (Suc n) b agents =
      (Some (agents ! (unat (counter b) mod length agents)) #
         map (\<lambda>k. Some (agents ! (unat (counter b + 1 + of_nat k) mod length agents))) [0..<n],
       b\<lparr>counter := counter b + 1 + of_nat n\<rparr>)"
    by (simp add: rr_Select_nonempty [OF assms] Suc.IH)
  also have "\<dots> =
      (map (\<lambda>k. Some (agents ! (unat (counter b + of_nat k) mod length agents))) [0..<Suc n],
       b\<lparr>counter := counter b + of_nat (Suc n)\<rparr>)"
    by (simp only: map_upt_Suc) (simp add: add.assoc)
  finally show ?case .
qed

text \<open>
  When the counter does not pass \<open>2 ^ 64\<close> during the calls, or the number of candidates
  divides \<open>2 ^ 64\<close>, the wrapped counter and the unbounded one give the same index.
\<close>

lemma rr_index_no_wrap:
  fixes c :: "64 word"
  assumes "unat c + n \<le> 2 ^ 64 \<or> n dvd 2 ^ 64" "k < n"
  shows "unat (c + of_nat k) mod n = (unat c + k) mod n"
proof -
  have u: "unat (c + of_nat k) = (unat c + k mod 2 ^ 64) mod 2 ^ 64"
    by (simp add: unat_word_ariths unat_of_nat)
  from assms(1) show ?thesis
  proof
    assume "unat c + n \<le> 2 ^ 64"
    with assms(2) have "unat c + k < 2 ^ 64" "k < 2 ^ 64" by simp_all
    with u show ?thesis by simp
  next
    assume d: "n dvd 2 ^ 64"
    have "unat (c + of_nat k) = (unat c + k) mod 2 ^ 64"
      unfolding u by (simp add: mod_add_right_eq)
    moreover have "(unat c + k) mod 2 ^ 64 mod n = (unat c + k) mod n"
      by (rule mod_mod_cancel [OF d])
    ultimately show ?thesis by simp
  qed
qed

lemma map_nth_rotate:
  "map (\<lambda>k. xs ! ((m + k) mod length xs)) [0..<length xs] = rotate m xs"
  by (rule nth_equalityI) (simp_all add: nth_rotate)

lemma mset_rotate: "mset (rotate m xs) = mset xs"
proof -
  let ?k = "m mod length xs"
  have "mset xs = mset (take ?k xs @ drop ?k xs)"
    by (simp only: append_take_drop_id)
  also have "\<dots> = mset (drop ?k xs) + mset (take ?k xs)"
    by (simp only: mset_append add.commute)
  finally show ?thesis by (simp add: rotate_drop_take)
qed

text \<open>
  C8. For each of the three policies, \<open>Select\<close> on a candidate list of length 0 returns
  \<open>nil\<close>: it does not panic and returns no error, the random policy does not call its
  randomness source (not even a \<open>nil\<close> one), and the round-robin counter is not advanced.
  Go's \<open>nil\<close> slice and an empty slice both have length 0, which is all \<open>Select\<close>
  looks at; both are the list \<open>[]\<close> here.
\<close>

theorem Select_empty: "Select b [] = (Inr None, b)"
  by (cases b) (simp_all add: rr_Select_def random_Select_def first_Select_def)

text \<open>One balancer of each kind on the empty list; the round-robin counter stays at 7.\<close>

theorem Select_empty_witness:
  "Select (RoundRobin \<lparr>counter = 7\<rparr>) ([] :: string list) = (Inr None, RoundRobin \<lparr>counter = 7\<rparr>) \<and>
   Select (Random (NewRandomBalancer None)) ([] :: string list)
     = (Inr None, Random (NewRandomBalancer None)) \<and>
   Select First ([] :: string list) = (Inr None, First)"
  using Select_empty [of "RoundRobin \<lparr>counter = 7\<rparr>", where ?'a = string]
    Select_empty [of "Random (NewRandomBalancer None)", where ?'a = string]
    Select_empty [of First, where ?'a = string]
  by simp

text \<open>
  C10. On a non-empty candidate list \<open>Select\<close> returns one of the candidates, never
  \<open>nil\<close> and never a panic: always for round-robin and first, and for random when the
  randomness source is present and its answer for the list length \<open>n\<close> lies in \<open>[0, n)\<close>.
\<close>

theorem Select_member:
  assumes "agents \<noteq> []"
    and "\<forall>rb. b = Random rb \<longrightarrow>
      (\<exists>f. randFunc rb = Some f \<and> 0 \<le> f (int (length agents)) \<and>
           f (int (length agents)) < int (length agents))"
  shows "\<exists>a \<in> set agents. fst (Select b agents) = Inr (Some a)"
proof (cases b)
  case (RoundRobin rb)
  have "unat (counter rb) mod length agents < length agents"
    using assms(1) by simp
  then show ?thesis
    using RoundRobin assms(1) by (simp add: rr_Select_nonempty)
next
  case (Random rb)
  with assms(2) obtain f where f: "randFunc rb = Some f" "0 \<le> f (int (length agents))"
    "f (int (length agents)) < int (length agents)"
    by blast
  then have "nat (f (int (length agents))) < length agents" by simp
  then have "agents ! nat (f (int (length agents))) \<in> set agents" by simp
  with Random assms(1) f show ?thesis
    by (simp add: random_Select_def)
next
  case First
  with assms(1) show ?thesis
    by (cases agents) (simp_all add: first_Select_def)
qed

text \<open>
  Three candidates: round-robin at counter 4 picks index \<open>4 mod 3 = 1\<close>, a randomness
  source answering \<open>n - 1\<close> picks the last, and first picks index 0.
\<close>

theorem Select_member_witness:
  "fst (Select (RoundRobin \<lparr>counter = 4\<rparr>) [''a'', ''b'', ''c'']) = Inr (Some ''b'') \<and>
   fst (Select (Random (NewRandomBalancer (Some (\<lambda>n. n - 1)))) [''a'', ''b'', ''c''])
     = Inr (Some ''c'') \<and>
   fst (Select First [''a'', ''b'', ''c'']) = Inr (Some ''a'')"
proof -
  let ?xs = "[''a'', ''b'', ''c'']"
  have ne: "?xs \<noteq> []" by simp
  have r: "\<forall>rb. RoundRobin \<lparr>counter = 4\<rparr> = Random rb \<longrightarrow>
      (\<exists>f. randFunc rb = Some f \<and> 0 \<le> f (int (length ?xs)) \<and>
           f (int (length ?xs)) < int (length ?xs))"
    by simp
  have d: "\<forall>rb. Random (NewRandomBalancer (Some (\<lambda>n. n - 1))) = Random rb \<longrightarrow>
      (\<exists>f. randFunc rb = Some f \<and> 0 \<le> f (int (length ?xs)) \<and>
           f (int (length ?xs)) < int (length ?xs))"
    by (simp add: NewRandomBalancer_def)
  have f: "\<forall>rb. First = Random rb \<longrightarrow>
      (\<exists>f. randFunc rb = Some f \<and> 0 \<le> f (int (length ?xs)) \<and>
           f (int (length ?xs)) < int (length ?xs))"
    by simp
  have "fst (Select (RoundRobin \<lparr>counter = 4\<rparr>) ?xs) = Inr (Some ''b'')"
    by (simp add: rr_Select_def)
  moreover have "fst (Select (Random (NewRandomBalancer (Some (\<lambda>n. n - 1)))) ?xs)
      = Inr (Some ''c'')"
    by (simp add: random_Select_def NewRandomBalancer_def)
  moreover have "fst (Select First ?xs) = Inr (Some ''a'')"
    by (simp add: first_Select_def)
  ultimately show ?thesis
    using Select_member [OF ne r] Select_member [OF ne d] Select_member [OF ne f] by simp
qed

lemma select_times_numeral:
  "select_times (numeral k) b agents =
     (case rr_Select b agents of (r, b') \<Rightarrow>
        (case select_times (pred_numeral k) b' agents of (rs, b'') \<Rightarrow> (r # rs, b'')))"
  by (simp add: numeral_eq_Suc)

text \<open>
  C6, as stated, fails where the 64-bit counter wraps inside the sequence. A balancer
  whose counter is \<open>2 ^ 64 - 1\<close> (reached from a new balancer by that many selections)
  and three candidates: the indices are \<open>(2 ^ 64 - 1) mod 3 = 0\<close>, then \<open>0 mod 3 = 0\<close>,
  then \<open>1 mod 3 = 1\<close>, so the first candidate is returned twice and the third never.
\<close>

theorem round_robin_cycle_counterexample:
  "fst (select_times 3 \<lparr>counter = 18446744073709551615\<rparr> [''a'', ''b'', ''c''])
     = [Some ''a'', Some ''a'', Some ''b''] \<and>
   Some ''c'' \<notin> set (fst (select_times 3 \<lparr>counter = 18446744073709551615\<rparr> [''a'', ''b'', ''c'']))"
proof -
  let ?xs = "[''a'', ''b'', ''c'']"
  have "rr_Select \<lparr>counter = 18446744073709551615\<rparr> ?xs = (Some ''a'', \<lparr>counter = 0\<rparr>)"
    by (simp add: rr_Select_def)
  moreover have "rr_Select \<lparr>counter = 0\<rparr> ?xs = (Some ''a'', \<lparr>counter = 1\<rparr>)"
    by (simp add: rr_Select_def)
  moreover have "rr_Select \<lparr>counter = 1\<rparr> ?xs = (Some ''b'', \<lparr>counter = 2\<rparr>)"
    by (simp add: rr_Select_def)
  ultimately show ?thesis
    by (simp add: select_times_numeral)
qed

text \<open>
  C6, amended. Let \<open>N\<close> be the length of a fixed candidate list and let the counter at the
  start be \<open>c\<close>. If the counter does not wrap inside the sequence (\<open>c + N \<le> 2 ^ 64\<close>) or
  \<open>N\<close> divides \<open>2 ^ 64\<close>, then \<open>N\<close> consecutive calls return the candidate list rotated
  by \<open>c\<close> positions: each candidate exactly once, in an order fixed by \<open>c\<close>; and the
  counter has advanced by \<open>N\<close>.
\<close>

theorem round_robin_cycle:
  assumes "unat (counter b) + length agents \<le> 2 ^ 64 \<or> length agents dvd 2 ^ 64"
  shows "select_times (length agents) b agents =
           (map Some (rotate (unat (counter b)) agents),
            b\<lparr>counter := counter b + of_nat (length agents)\<rparr>) \<and>
         mset (fst (select_times (length agents) b agents)) = mset (map Some agents)"
proof (cases "agents = []")
  case True
  then show ?thesis by simp
next
  case False
  let ?N = "length agents"
  have "map (\<lambda>k. Some (agents ! (unat (counter b + of_nat k) mod ?N))) [0..<?N] =
        map (\<lambda>k. Some (agents ! ((unat (counter b) + k) mod ?N))) [0..<?N]"
    by (rule map_cong [OF refl]) (simp add: rr_index_no_wrap [OF assms])
  also have "\<dots> = map Some (map (\<lambda>k. agents ! ((unat (counter b) + k) mod ?N)) [0..<?N])"
    by simp
  also have "\<dots> = map Some (rotate (unat (counter b)) agents)"
    by (simp only: map_nth_rotate)
  finally have eq: "select_times ?N b agents =
      (map Some (rotate (unat (counter b)) agents), b\<lparr>counter := counter b + of_nat ?N\<rparr>)"
    by (simp add: select_times_eq [OF False])
  have "mset (map Some (rotate (unat (counter b)) agents)) = mset (map Some agents)"
    by (simp add: mset_rotate)
  with eq show ?thesis by simp
qed

text \<open>
  Three candidates from counter 4: the order is \<open>b, c, a\<close>. Two candidates from counter
  \<open>2 ^ 64 - 1\<close>, where the counter wraps but 2 divides \<open>2 ^ 64\<close>: the order is \<open>b, a\<close>.
\<close>

theorem round_robin_cycle_witness:
  "select_times 3 \<lparr>counter = 4\<rparr> [''a'', ''b'', ''c''] =
     ([Some ''b'', Some ''c'', Some ''a''], \<lparr>counter = 7\<rparr>) \<and>
   select_times 2 \<lparr>counter = 18446744073709551615\<rparr> [''a'', ''b''] =
     ([Some ''b'', Some ''a''], \<lparr>counter = 1\<rparr>)"
proof -
  have a: "unat (counter \<lparr>counter = 4\<rparr>) + length [''a'', ''b'', ''c''] \<le> 2 ^ 64
      \<or> length [''a'', ''b'', ''c''] dvd 2 ^ 64"
    by simp
  have "(2::nat) dvd 2 ^ 64" by (rule dvd_power) simp
  moreover have "length [''a'', ''b''] = 2" by simp
  ultimately have b: "unat (counter \<lparr>counter = 18446744073709551615\<rparr>) + length [''a'', ''b''] \<le> 2 ^ 64
      \<or> length [''a'', ''b''] dvd 2 ^ 64"
    by (simp only: simp_thms)
  have ra: "rotate (unat (4 :: 64 word)) [''a'', ''b'', ''c''] = [''b'', ''c'', ''a'']"
    by (subst rotate_conv_mod) (simp add: rotate_def)
  have "rotate (unat (18446744073709551615 :: 64 word)) [''a'', ''b'']
      = rotate (unat (18446744073709551615 :: 64 word) mod 2) [''a'', ''b'']"
    using rotate_conv_mod [of "unat (18446744073709551615 :: 64 word)" "[''a'', ''b'']"]
    by (simp only: \<open>length [''a'', ''b''] = 2\<close>)
  also have "unat (18446744073709551615 :: 64 word) mod 2 = 1" by simp
  finally have rb: "rotate (unat (18446744073709551615 :: 64 word)) [''a'', ''b''] = [''b'', ''a'']"
    by simp
  have l3: "length [''a'', ''b'', ''c''] = 3" by simp
  have l2: "length [''a'', ''b''] = 2" by simp
  have w: "(18446744073709551615 :: 64 word) + 2 = 1" by simp
  from round_robin_cycle [OF a, unfolded l3] round_robin_cycle [OF b, unfolded l2] ra rb w
  show ?thesis by simp
qed

section \<open>Properties of the registry and the tool factory\<close>

lemma provides_cap_iff: "provides_cap ps cap \<longleftrightarrow> cap \<in> set ps"
  by (induction ps) auto

text \<open>What one map entry contributes to a scan: the agent if it declares the capability.\<close>

lemma scan_agents_concat:
  "scan_agents m ks cap =
     concat (map (\<lambda>k. case m k of None \<Rightarrow> []
                        | Some a \<Rightarrow> if cap \<in> set (Provides a) then [a] else []) ks)"
  by (induction ks) (auto simp: provides_cap_iff split: option.splits)

lemma set_scan_agents:
  "set (scan_agents m ks cap) = {a. \<exists>k \<in> set ks. m k = Some a \<and> cap \<in> set (Provides a)}"
  by (induction ks) (auto simp: provides_cap_iff split: option.splits)

lemma set_scan_agents_range:
  assumes "range_order r ord"
  shows "set (scan_agents (agents_map r) ord cap) = providers_of r cap"
proof -
  from assms have "set ord = dom (agents_map r)" by (simp add: range_order_def)
  then show ?thesis
    unfolding set_scan_agents providers_of_def by (auto simp: ran_def)
qed

lemma mset_concat_map_cong:
  assumes "mset ks = mset ks'"
  shows "mset (concat (map f ks)) = mset (concat (map f ks'))"
proof -
  have "mset (concat (map f zs)) = (\<Sum>k \<in># mset zs. mset (f k))" for zs
    by (induction zs) simp_all
  with assms show ?thesis by simp
qed

lemma mset_scan_agents_range:
  assumes "range_order r ord" "range_order r ord'"
  shows "mset (scan_agents (agents_map r) ord cap) = mset (scan_agents (agents_map r) ord' cap)"
proof -
  from assms have "distinct ord" "distinct ord'" "set ord = set ord'"
    by (simp_all add: range_order_def)
  then have "mset ord = mset ord'"
    by (simp add: set_eq_iff_mset_eq_distinct)
  then show ?thesis
    unfolding scan_agents_concat by (rule mset_concat_map_cong)
qed

text \<open>
  C7, as stated, fails in its order part: the scan follows the map's iteration order,
  which Go does not keep from one loop to the next. With two registered providers of
  \<open>research\<close>, both orders of the two keys are iteration orders of the same registry,
  and the two scans return the same two agents in opposite orders.
\<close>

theorem FindByCapability_order_counterexample:
  "range_order
     (Register (Register NewLocal \<lparr>ID = ''a'', Provides = [''research''], Needs = []\<rparr>)
        \<lparr>ID = ''b'', Provides = [''research''], Needs = []\<rparr>) [''a'', ''b''] \<and>
   range_order
     (Register (Register NewLocal \<lparr>ID = ''a'', Provides = [''research''], Needs = []\<rparr>)
        \<lparr>ID = ''b'', Provides = [''research''], Needs = []\<rparr>) [''b'', ''a''] \<and>
   FindByCapability
     (Register (Register NewLocal \<lparr>ID = ''a'', Provides = [''research''], Needs = []\<rparr>)
        \<lparr>ID = ''b'', Provides = [''research''], Needs = []\<rparr>) [''a'', ''b''] ''research''
     = Inr [\<lparr>ID = ''a'', Provides = [''research''], Needs = []\<rparr>,
            \<lparr>ID = ''b'', Provides = [''research''], Needs = []\<rparr>] \<and>
   FindByCapability
     (Register (Register NewLocal \<lparr>ID = ''a'', Provides = [''research''], Needs = []\<rparr>)
        \<lparr>ID = ''b'', Provides = [''research''], Needs = []\<rparr>) [''b'', ''a''] ''research''
     = Inr [\<lparr>ID = ''b'', Provides = [''research''], Needs = []\<rparr>,
            \<lparr>ID = ''a'', Provides = [''research''], Needs = []\<rparr>]"
  by (auto simp: range_order_def Register_def NewLocal_def FindByCapability_def)

text \<open>
  C7, amended. \<open>FindByCapability\<close> never fails, and whatever the iteration order, its
  result holds exactly the registered agents whose \<open>Provides\<close> contains the capability
  under equality of the capability strings. Two calls on the same registry return the
  same agents the same number of times; only their order may differ.
\<close>

theorem FindByCapability_exact:
  assumes "range_order r ord" and "range_order r ord'"
  shows "\<exists>res res'.
     FindByCapability r ord cap = Inr res \<and> FindByCapability r ord' cap = Inr res' \<and>
     set res = providers_of r cap \<and> mset res' = mset res"
  using set_scan_agents_range [OF assms(1)] mset_scan_agents_range [OF assms(2,1)]
  by (simp add: FindByCapability_def)

text \<open>
  Three registered agents: \<open>a\<close> provides \<open>research\<close>, \<open>b\<close> provides \<open>Research\<close> and
  \<open>research2\<close>, \<open>c\<close> provides \<open>coding\<close> and \<open>research\<close>. A scan for \<open>research\<close>
  returns \<open>a\<close> and \<open>c\<close>, in the order of the iteration, and never \<open>b\<close>.
\<close>

theorem FindByCapability_exact_witness:
  "FindByCapability
     (Register (Register (Register NewLocal
        \<lparr>ID = ''a'', Provides = [''research''], Needs = []\<rparr>)
        \<lparr>ID = ''b'', Provides = [''Research'', ''research2''], Needs = []\<rparr>)
        \<lparr>ID = ''c'', Provides = [''coding'', ''research''], Needs = []\<rparr>)
     [''a'', ''b'', ''c''] ''research''
     = Inr [\<lparr>ID = ''a'', Provides = [''research''], Needs = []\<rparr>,
            \<lparr>ID = ''c'', Provides = [''coding'', ''research''], Needs = []\<rparr>] \<and>
   FindByCapability
     (Register (Register (Register NewLocal
        \<lparr>ID = ''a'', Provides = [''research''], Needs = []\<rparr>)
        \<lparr>ID = ''b'', Provides = [''Research'', ''research2''], Needs = []\<rparr>)
        \<lparr>ID = ''c'', Provides = [''coding'', ''research''], Needs = []\<rparr>)
     [''c'', ''b'', ''a''] ''research''
     = Inr [\<lparr>ID = ''c'', Provides = [''coding'', ''research''], Needs = []\<rparr>,
            \<lparr>ID = ''a'', Provides = [''research''], Needs = []\<rparr>] \<and>
   providers_of
     (Register (Register (Register NewLocal
        \<lparr>ID = ''a'', Provides = [''research''], Needs = []\<rparr>)
        \<lparr>ID = ''b'', Provides = [''Research'', ''research2''], Needs = []\<rparr>)
        \<lparr>ID = ''c'', Provides = [''coding'', ''research''], Needs = []\<rparr>) ''research''
     = {\<lparr>ID = ''a'', Provides = [''research''], Needs = []\<rparr>,
        \<lparr>ID = ''c'', Provides = [''coding'', ''research''], Needs = []\<rparr>}"
proof -
  let ?a = "\<lparr>ID = ''a'', Provides = [''research''], Needs = []\<rparr>"
  let ?b = "\<lparr>ID = ''b'', Provides = [''Research'', ''research2''], Needs = []\<rparr>"
  let ?c = "\<lparr>ID = ''c'', Provides = [''coding'', ''research''], Needs = []\<rparr>"
  let ?r = "Register (Register (Register NewLocal ?a) ?b) ?c"
  have o1: "range_order ?r [''a'', ''b'', ''c'']"
    by (auto simp: range_order_def Register_def NewLocal_def)
  have o2: "range_order ?r [''c'', ''b'', ''a'']"
    by (auto simp: range_order_def Register_def NewLocal_def)
  have f1: "FindByCapability ?r [''a'', ''b'', ''c''] ''research'' = Inr [?a, ?c]"
    by (simp add: Register_def NewLocal_def FindByCapability_def)
  have f2: "FindByCapability ?r [''c'', ''b'', ''a''] ''research'' = Inr [?c, ?a]"
    by (simp add: Register_def NewLocal_def FindByCapability_def)
  from FindByCapability_exact [OF o1 o2, of "''research''"] f1
  have "set [?a, ?c] = providers_of ?r ''research''" by auto
  with f1 f2 show ?thesis by simp
qed

lemma inject_loop_tools:
  assumes "\<forall>i. range_order (registry injector) (sched i)"
  shows "\<exists>tools. inject_loop injector sched i needs = Inr tools \<and>
     map capability tools = filter (\<lambda>c. providers_of (registry injector) c \<noteq> {}) needs \<and>
     (\<forall>t \<in> set tools. set (providers t) = providers_of (registry injector) (capability t) \<and>
        tool_balancer t = balancer injector \<and> tool_cycleDetector t = cycleDetector injector)"
proof (induction needs arbitrary: i)
  case Nil
  show ?case by simp
next
  case (Cons need rest)
  from Cons.IH [of "Suc i"] obtain tools where
    t: "inject_loop injector sched (Suc i) rest = Inr tools"
      "map capability tools = filter (\<lambda>c. providers_of (registry injector) c \<noteq> {}) rest"
      "\<forall>t \<in> set tools. set (providers t) = providers_of (registry injector) (capability t) \<and>
        tool_balancer t = balancer injector \<and> tool_cycleDetector t = cycleDetector injector"
    by blast
  let ?provs = "scan_agents (agents_map (registry injector)) (sched i) need"
  have f: "FindByCapability (registry injector) (sched i) need = Inr ?provs"
    by (simp add: FindByCapability_def)
  have s: "set ?provs = providers_of (registry injector) need"
    using assms by (simp add: set_scan_agents_range)
  show ?case
  proof (cases "?provs = []")
    case True
    with s have "providers_of (registry injector) need = {}" by simp
    with True t f show ?thesis by simp
  next
    case False
    with s have "providers_of (registry injector) need \<noteq> {}" by auto
    with False t f s show ?thesis by simp
  qed
qed

lemma inj_delegate_name: "inj ((@) ''delegate_to_'')"
  by (rule injI) simp

text \<open>
  C5, as stated, fails in its collapsing part: \<open>InjectTools\<close> appends one tool for each
  entry of \<open>Needs\<close> that has a provider and never compares tools or capabilities. With
  \<open>research\<close> declared twice and one registered provider, there are two tools with the
  same name, where the claim has one.
\<close>

theorem InjectTools_duplicates_counterexample:
  "map_sum id (map Name)
     (InjectTools
        \<lparr>registry = Register NewLocal \<lparr>ID = ''r'', Provides = [''research''], Needs = []\<rparr>,
         balancer = First, cycleDetector = NewCycleDetector 10\<rparr>
        (\<lambda>i. [''r''])
        \<lparr>ID = ''w'', Provides = [''writing''], Needs = [''research'', ''research'']\<rparr>)
     = Inr [''delegate_to_research'', ''delegate_to_research''] \<and>
   remdups (Needs \<lparr>ID = ''w'', Provides = [''writing''], Needs = [''research'', ''research'']\<rparr>)
     = [''research'']"
  by (simp add: InjectTools_def FindByCapability_def Register_def NewLocal_def Name_def)

text \<open>
  C5, amended. \<open>InjectTools\<close> on the local registry never fails and returns, in declared
  order, one delegation tool for each entry of the agent's \<open>Needs\<close> whose capability has
  at least one registered provider; an entry without a provider gives no tool and no
  error. Each tool is named \<open>delegate_to_\<close> followed by its capability and is bound to
  exactly the registered providers of that capability. A capability declared twice
  gives two tools; when \<open>Needs\<close> has no repetitions, the tool names have none either.
\<close>

theorem InjectTools_tools:
  assumes "\<forall>i. range_order (registry injector) (sched i)"
  shows "\<exists>tools. InjectTools injector sched agent = Inr tools \<and>
     map capability tools = filter (\<lambda>c. providers_of (registry injector) c \<noteq> {}) (Needs agent) \<and>
     map Name tools =
       map (\<lambda>c. ''delegate_to_'' @ c)
         (filter (\<lambda>c. providers_of (registry injector) c \<noteq> {}) (Needs agent)) \<and>
     (\<forall>t \<in> set tools. set (providers t) = providers_of (registry injector) (capability t)) \<and>
     (distinct (Needs agent) \<longrightarrow> distinct (map Name tools))"
proof -
  from inject_loop_tools [OF assms, of 0 "Needs agent"] obtain tools where
    t: "InjectTools injector sched agent = Inr tools"
      "map capability tools = filter (\<lambda>c. providers_of (registry injector) c \<noteq> {}) (Needs agent)"
      "\<forall>t \<in> set tools. set (providers t) = providers_of (registry injector) (capability t)"
    unfolding InjectTools_def by blast
  have "map Name tools = map (\<lambda>c. ''delegate_to_'' @ c) (map capability tools)"
    by (simp add: Name_def)
  with t(2) have n: "map Name tools =
      map (\<lambda>c. ''delegate_to_'' @ c)
        (filter (\<lambda>c. providers_of (registry injector) c \<noteq> {}) (Needs agent))"
    by simp
  have "distinct (map Name tools)" if "distinct (Needs agent)"
    unfolding n using that inj_delegate_name
    by (simp add: distinct_map inj_on_def inj_def)
  with t n show ?thesis by blast
qed

text \<open>
  The scenario of the specification, with one need nobody provides added: a registered
  researcher, and a writer needing \<open>research\<close> and \<open>analysis\<close>, get exactly the tool
  \<open>delegate_to_research\<close>, bound to the researcher. On an empty registry the same
  writer gets no tool and no error.
\<close>

theorem InjectTools_tools_witness:
  "InjectTools
     \<lparr>registry = Register NewLocal \<lparr>ID = ''r'', Provides = [''research''], Needs = []\<rparr>,
      balancer = First, cycleDetector = NewCycleDetector 10\<rparr>
     (\<lambda>i. [''r''])
     \<lparr>ID = ''w'', Provides = [''writing''], Needs = [''research'', ''analysis'']\<rparr>
     = Inr [\<lparr>capability = ''research'',
             providers = [\<lparr>ID = ''r'', Provides = [''research''], Needs = []\<rparr>],
             tool_balancer = First, tool_cycleDetector = NewCycleDetector 10\<rparr>] \<and>
   Name \<lparr>capability = ''research'',
         providers = [\<lparr>ID = ''r'', Provides = [''research''], Needs = []\<rparr>],
         tool_balancer = First, tool_cycleDetector = NewCycleDetector 10\<rparr>
     = ''delegate_to_research'' \<and>
   InjectTools \<lparr>registry = NewLocal, balancer = First, cycleDetector = NewCycleDetector 10\<rparr>
     (\<lambda>i. [])
     \<lparr>ID = ''w'', Provides = [''writing''], Needs = [''research'', ''analysis'']\<rparr>
     = Inr []"
proof -
  let ?r = "\<lparr>ID = ''r'', Provides = [''research''], Needs = []\<rparr>"
  let ?w = "\<lparr>ID = ''w'', Provides = [''writing''], Needs = [''research'', ''analysis'']\<rparr>"
  let ?inj = "\<lparr>registry = Register NewLocal ?r, balancer = First,
    cycleDetector = NewCycleDetector 10\<rparr>"
  let ?none = "\<lparr>registry = NewLocal, balancer = First, cycleDetector = NewCycleDetector 10\<rparr>"
  have o: "\<forall>i::nat. range_order (registry ?inj) ((\<lambda>i. [''r'']) i)"
    by (auto simp: range_order_def Register_def NewLocal_def)
  have o0: "\<forall>i::nat. range_order (registry ?none) ((\<lambda>i. []) i)"
    by (simp add: range_order_def NewLocal_def)
  have a: "InjectTools ?inj (\<lambda>i. [''r'']) ?w =
      Inr [\<lparr>capability = ''research'', providers = [?r],
             tool_balancer = First, tool_cycleDetector = NewCycleDetector 10\<rparr>]"
    by (simp add: InjectTools_def FindByCapability_def Register_def NewLocal_def)
  have b: "InjectTools ?none (\<lambda>i. []) ?w = Inr []"
    by (simp add: InjectTools_def FindByCapability_def NewLocal_def)
  from InjectTools_tools [OF o, of ?w] InjectTools_tools [OF o0, of ?w] a b
  show ?thesis by (simp add: Name_def)
qed

end
